theory Spec2Isabelle
  imports Complex_Main "HOL-Library.DAList"
begin

section \<open>Python values used by the bookstore\<close>

text \<open>
  A Python \<^verbatim>\<open>float\<close> is a finite number, an infinity or a NaN. The store never
  computes with a price: it compares it with zero when a model is validated and copies
  it otherwise, so a finite float is represented by a real number and nothing depends
  on rounding.
\<close>

datatype pyfloat = Finite real | PosInf | NegInf | NaN

text \<open>The comparison \<^verbatim>\<open>x > c\<close> of pydantic's \<^verbatim>\<open>gt=c\<close>; every comparison with NaN is false.\<close>

fun float_gt :: "pyfloat \<Rightarrow> real \<Rightarrow> bool" where
  "float_gt (Finite r) c = (c < r)"
| "float_gt PosInf c = True"
| "float_gt NegInf c = False"
| "float_gt NaN c = False"

text \<open>
  A Python \<^verbatim>\<open>dict\<close> keeps its keys unique and in insertion order. It is an association
  list with distinct keys: assigning to a key that is present replaces the value where
  it stands, assigning to a new key appends the entry, \<^verbatim>\<open>del\<close> removes the entry and
  raises \<^verbatim>\<open>KeyError\<close> when the key is missing. The exceptions of the program are
  values of the type \<open>error\<close>; an \<^verbatim>\<open>HTTPException\<close> carries its status code.
\<close>

datatype error = ValidationError | KeyError | HTTPException nat

type_synonym ('k, 'v) dict = "('k, 'v) alist"

definition dict_empty :: "('k, 'v) dict" where
  "dict_empty = DAList.empty"

definition dict_items :: "('k, 'v) dict \<Rightarrow> ('k \<times> 'v) list" where
  "dict_items d = DAList.impl_of d"

definition dict_get :: "('k, 'v) dict \<Rightarrow> 'k \<Rightarrow> 'v option" where
  "dict_get d k = map_of (dict_items d) k"

definition dict_contains :: "('k, 'v) dict \<Rightarrow> 'k \<Rightarrow> bool" where
  "dict_contains d k = (k \<in> set (map fst (dict_items d)))"

definition dict_setitem :: "('k, 'v) dict \<Rightarrow> 'k \<Rightarrow> 'v \<Rightarrow> ('k, 'v) dict" where
  "dict_setitem d k v = DAList.update k v d"

definition dict_delitem :: "('k, 'v) dict \<Rightarrow> 'k \<Rightarrow> error + ('k, 'v) dict" where
  "dict_delitem d k = (if dict_contains d k then Inr (DAList.delete k d) else Inl KeyError)"

definition dict_values :: "('k, 'v) dict \<Rightarrow> 'v list" where
  "dict_values d = map snd (dict_items d)"

definition dict_len :: "('k, 'v) dict \<Rightarrow> nat" where
  "dict_len d = length (dict_items d)"

section \<open>The models of \<^verbatim>\<open>app/models.py\<close>\<close>

text \<open>
  pydantic validates a model when it is constructed and at no other time:
  \<^verbatim>\<open>model_copy(update=...)\<close> stores the given values as they are. A field of a model
  can therefore hold \<^verbatim>\<open>None\<close> at run time whatever its annotation says, and every field
  is an option whose \<open>None\<close> is Python's \<^verbatim>\<open>None\<close>. The elements of a string stand for
  its code points, which is what \<^verbatim>\<open>min_length\<close> and \<^verbatim>\<open>max_length\<close> count.
\<close>

record BookBase =
  title :: "string option"
  author :: "string option"
  price :: "pyfloat option"
  available :: "bool option"

text \<open>\<^verbatim>\<open>class BookCreate(BookBase): pass\<close>: the same fields, and no \<^verbatim>\<open>id\<close>.\<close>

type_synonym BookCreate = BookBase

text \<open>\<^verbatim>\<open>class Book(BookBase)\<close> adds the field \<^verbatim>\<open>id: int\<close>.\<close>

record Book = BookBase +
  id_field :: int

text \<open>
  A field of a \<^verbatim>\<open>BookUpdate\<close> is either unset (never given to the constructor, so not in
  \<^verbatim>\<open>model_fields_set\<close> and holding its default \<^verbatim>\<open>None\<close>) or given, and then its value is a
  value of the \<^verbatim>\<open>Optional\<close> type: \<open>Given None\<close> is an explicit \<^verbatim>\<open>null\<close>.
\<close>

datatype 'a field = Unset | Given "'a option"

record BookUpdate =
  title :: "string field"
  author :: "string field"
  price :: "pyfloat field"
  available :: "bool field"

text \<open>The constraint \<^verbatim>\<open>Field(..., min_length=lo, max_length=hi)\<close> on a \<^verbatim>\<open>str\<close>.\<close>

definition str_ok :: "nat \<Rightarrow> nat \<Rightarrow> string \<Rightarrow> bool" where
  "str_ok lo hi s = (lo \<le> length s \<and> length s \<le> hi)"

text \<open>A required field: \<^verbatim>\<open>None\<close> is not a value of \<^verbatim>\<open>str\<close>, \<^verbatim>\<open>float\<close> or \<^verbatim>\<open>bool\<close>.\<close>

definition required :: "('a \<Rightarrow> bool) \<Rightarrow> 'a option \<Rightarrow> bool" where
  "required P v = (case v of None \<Rightarrow> False | Some x \<Rightarrow> P x)"

text \<open>A field \<^verbatim>\<open>Optional[T] = Field(None, ...)\<close>: unset, \<^verbatim>\<open>None\<close>, or a value that meets the constraint.\<close>

definition optional :: "('a \<Rightarrow> bool) \<Rightarrow> 'a field \<Rightarrow> bool" where
  "optional P f = (case f of Unset \<Rightarrow> True | Given None \<Rightarrow> True | Given (Some x) \<Rightarrow> P x)"

text \<open>The validation of \<^verbatim>\<open>BookBase\<close>, which \<^verbatim>\<open>BookCreate\<close> and \<^verbatim>\<open>Book\<close> inherit.\<close>

definition BookBase_valid :: "'a BookBase_scheme \<Rightarrow> bool" where
  "BookBase_valid b =
     (required (str_ok 1 200) (BookBase.title b) \<and>
      required (str_ok 1 100) (BookBase.author b) \<and>
      required (\<lambda>p. float_gt p 0) (BookBase.price b) \<and>
      required (\<lambda>a. True) (BookBase.available b))"

text \<open>The validation of \<^verbatim>\<open>BookUpdate\<close>.\<close>

definition BookUpdate_valid :: "BookUpdate \<Rightarrow> bool" where
  "BookUpdate_valid u =
     (optional (str_ok 1 200) (BookUpdate.title u) \<and>
      optional (str_ok 1 100) (BookUpdate.author u) \<and>
      optional (\<lambda>p. float_gt p 0) (BookUpdate.price u) \<and>
      optional (\<lambda>a. True) (BookUpdate.available u))"

text \<open>
  \<^verbatim>\<open>Book(id=book_id, **book_data.model_dump())\<close>: the constructor validates the four
  dumped fields and raises \<^verbatim>\<open>ValidationError\<close> when one of them fails.
\<close>

definition Book_init :: "int \<Rightarrow> BookCreate \<Rightarrow> error + Book" where
  "Book_init book_id book_data =
     (if BookBase_valid book_data
      then Inr \<lparr>BookBase.title = BookBase.title book_data,
                BookBase.author = BookBase.author book_data,
                BookBase.price = BookBase.price book_data,
                BookBase.available = BookBase.available book_data,
                id_field = book_id\<rparr>
      else Inl ValidationError)"

text \<open>
  \<^verbatim>\<open>book.model_copy(update=book_data.model_dump(exclude_unset=True))\<close>: the dump holds
  the fields that were given, with their values; the copy takes each of them without
  validation and keeps every other field, \<^verbatim>\<open>id\<close> included.
\<close>

definition pick :: "'a field \<Rightarrow> 'a option \<Rightarrow> 'a option" where
  "pick f old = (case f of Unset \<Rightarrow> old | Given v \<Rightarrow> v)"

definition model_copy :: "Book \<Rightarrow> BookUpdate \<Rightarrow> Book" where
  "model_copy book book_data =
     book\<lparr>BookBase.title := pick (BookUpdate.title book_data) (BookBase.title book),
          BookBase.author := pick (BookUpdate.author book_data) (BookBase.author book),
          BookBase.price := pick (BookUpdate.price book_data) (BookBase.price book),
          BookBase.available :=
            pick (BookUpdate.available book_data) (BookBase.available book)\<rparr>"

section \<open>The store of \<^verbatim>\<open>app/database.py\<close>\<close>

record BookDatabase =
  books :: "(int, Book) dict"
  next_id :: int

text \<open>
  Every operation returns its result, or the exception it raises, together with the
  state of the store it leaves behind.
\<close>

type_synonym 'a outcome = "(error + 'a) \<times> BookDatabase"

text \<open>\<^verbatim>\<open>BookDatabase.__init__\<close>\<close>

definition init :: BookDatabase where
  "init = \<lparr>books = dict_empty, next_id = 1\<rparr>"

text \<open>\<^verbatim>\<open>BookDatabase._generate_id\<close>\<close>

definition generate_id :: "BookDatabase \<Rightarrow> int \<times> BookDatabase" where
  "generate_id db = (next_id db, db\<lparr>next_id := next_id db + 1\<rparr>)"

text \<open>
  \<^verbatim>\<open>BookDatabase.create\<close>. The identifier is taken before the book is constructed, so
  a failed construction has used it up.
\<close>

definition create :: "BookDatabase \<Rightarrow> BookCreate \<Rightarrow> Book outcome" where
  "create db book_data =
     (case generate_id db of (book_id, db1) \<Rightarrow>
        (case Book_init book_id book_data of
           Inl e \<Rightarrow> (Inl e, db1)
         | Inr book \<Rightarrow> (Inr book, db1\<lparr>books := dict_setitem (books db1) book_id book\<rparr>)))"

text \<open>\<^verbatim>\<open>BookDatabase.get_all\<close>\<close>

definition get_all :: "BookDatabase \<Rightarrow> Book list" where
  "get_all db = dict_values (books db)"

text \<open>\<^verbatim>\<open>BookDatabase.get_by_id\<close>\<close>

definition get_by_id :: "BookDatabase \<Rightarrow> int \<Rightarrow> Book option" where
  "get_by_id db book_id = dict_get (books db) book_id"

text \<open>
  \<^verbatim>\<open>BookDatabase.update\<close>. A pydantic model is always truthy, so \<^verbatim>\<open>not book\<close> holds
  exactly when \<^verbatim>\<open>get\<close> returned \<^verbatim>\<open>None\<close>.
\<close>

definition update :: "BookDatabase \<Rightarrow> int \<Rightarrow> BookUpdate \<Rightarrow> Book option outcome" where
  "update db book_id book_data =
     (case dict_get (books db) book_id of
        None \<Rightarrow> (Inr None, db)
      | Some book \<Rightarrow>
          (let updated_book = model_copy book book_data
           in (Inr (Some updated_book),
               db\<lparr>books := dict_setitem (books db) book_id updated_book\<rparr>)))"

text \<open>\<^verbatim>\<open>BookDatabase.delete\<close>\<close>

definition delete :: "BookDatabase \<Rightarrow> int \<Rightarrow> bool outcome" where
  "delete db book_id =
     (if dict_contains (books db) book_id
      then (case dict_delitem (books db) book_id of
              Inl e \<Rightarrow> (Inl e, db)
            | Inr d \<Rightarrow> (Inr True, db\<lparr>books := d\<rparr>))
      else (Inr False, db))"

text \<open>\<^verbatim>\<open>BookDatabase.exists\<close>\<close>

definition exists :: "BookDatabase \<Rightarrow> int \<Rightarrow> bool" where
  "exists db book_id = dict_contains (books db) book_id"

text \<open>\<^verbatim>\<open>BookDatabase.count\<close>\<close>

definition count :: "BookDatabase \<Rightarrow> nat" where
  "count db = dict_len (books db)"

section \<open>Sequences of store operations\<close>

datatype op =
    Create BookCreate
  | GetAll
  | GetById int
  | Update int BookUpdate
  | Delete int
  | Exists int
  | Count

datatype result =
    Created "error + Book"
  | Listed "Book list"
  | Got "Book option"
  | Updated "error + Book option"
  | Deleted "error + bool"
  | Existence bool
  | Counted nat

fun step :: "BookDatabase \<Rightarrow> op \<Rightarrow> result \<times> BookDatabase" where
  "step db (Create book_data) = (case create db book_data of (r, db') \<Rightarrow> (Created r, db'))"
| "step db GetAll = (Listed (get_all db), db)"
| "step db (GetById book_id) = (Got (get_by_id db book_id), db)"
| "step db (Update book_id book_data) =
     (case update db book_id book_data of (r, db') \<Rightarrow> (Updated r, db'))"
| "step db (Delete book_id) = (case delete db book_id of (r, db') \<Rightarrow> (Deleted r, db'))"
| "step db (Exists book_id) = (Existence (exists db book_id), db)"
| "step db Count = (Counted (count db), db)"

fun run :: "BookDatabase \<Rightarrow> op list \<Rightarrow> result list \<times> BookDatabase" where
  "run db [] = ([], db)"
| "run db (x # xs) =
     (case step db x of (r, db1) \<Rightarrow> (case run db1 xs of (rs, db2) \<Rightarrow> (r # rs, db2)))"

text \<open>The states of the store that some sequence of operations reaches from a new store.\<close>

inductive reachable :: "BookDatabase \<Rightarrow> bool" where
  reachable_init: "reachable init"
| reachable_step: "reachable db \<Longrightarrow> reachable (snd (step db x))"

text \<open>The outcomes of the calls of \<^verbatim>\<open>create\<close> in a list of results, in the order of the calls.\<close>

fun create_results :: "result list \<Rightarrow> (error + Book) list" where
  "create_results [] = []"
| "create_results (Created r # rs) = r # create_results rs"
| "create_results (_ # rs) = create_results rs"

text \<open>The identifiers of the books that the calls of \<^verbatim>\<open>create\<close> returned.\<close>

fun returned_ids :: "(error + Book) list \<Rightarrow> int list" where
  "returned_ids [] = []"
| "returned_ids (Inr b # rs) = id_field b # returned_ids rs"
| "returned_ids (Inl e # rs) = returned_ids rs"

definition created_ids :: "result list \<Rightarrow> int list" where
  "created_ids rs = returned_ids (create_results rs)"

section \<open>The first version of the service, \<^verbatim>\<open>main.py\<close> at the root\<close>

text \<open>
  The root \<^verbatim>\<open>main.py\<close> declares a \<^verbatim>\<open>Book\<close> of its own with the same five fields, all of
  them sent by the caller, and keeps the books in a list. \<^verbatim>\<open>add_book\<close> appends the book
  it is given, \<^verbatim>\<open>get_books\<close> returns the list, and \<^verbatim>\<open>get_book\<close> returns the first book
  of the list with the identifier asked for, or raises the error 404.
\<close>

definition main_add_book :: "Book list \<Rightarrow> Book \<Rightarrow> Book \<times> Book list" where
  "main_add_book books_list book = (book, books_list @ [book])"

definition main_get_books :: "Book list \<Rightarrow> Book list" where
  "main_get_books books_list = books_list"

fun main_get_book :: "Book list \<Rightarrow> int \<Rightarrow> error + Book" where
  "main_get_book [] book_id = Inl (HTTPException 404)"
| "main_get_book (book # rest) book_id =
     (if id_field book = book_id then Inr book else main_get_book rest book_id)"

section \<open>The invariant of the store\<close>

text \<open>
  Every record is stored under its own identifier, every identifier in use is below the
  counter, and the entries stand in increasing order of their identifiers.
\<close>

definition store_inv :: "BookDatabase \<Rightarrow> bool" where
  "store_inv db =
     ((\<forall>(k, b) \<in> set (dict_items (books db)). id_field b = k \<and> k < next_id db) \<and>
      sorted_wrt (<) (map fst (dict_items (books db))))"

text \<open>
  The field constraints of \<^verbatim>\<open>Book\<close> on every record that the store holds.
\<close>

definition store_valid :: "BookDatabase \<Rightarrow> bool" where
  "store_valid db = (\<forall>k b. get_by_id db k = Some b \<longrightarrow> BookBase_valid b)"

text \<open>A patch none of whose fields is an explicit \<^verbatim>\<open>null\<close>.\<close>

definition no_explicit_null :: "BookUpdate \<Rightarrow> bool" where
  "no_explicit_null u =
     (BookUpdate.title u \<noteq> Given None \<and> BookUpdate.author u \<noteq> Given None \<and>
      BookUpdate.price u \<noteq> Given None \<and> BookUpdate.available u \<noteq> Given None)"

text \<open>An operation that is not an update, or an update whose patch is valid and gives no \<^verbatim>\<open>null\<close>.\<close>

definition null_free :: "op \<Rightarrow> bool" where
  "null_free x =
     (case x of Update k u \<Rightarrow> BookUpdate_valid u \<and> no_explicit_null u | _ \<Rightarrow> True)"

section \<open>Example values\<close>

text \<open>The example of \<^verbatim>\<open>Book.Config.json_schema_extra\<close>, and the same book as a request to create it.\<close>

definition example_book :: Book where
  "example_book =
     \<lparr>BookBase.title = Some ''Clean Code'', BookBase.author = Some ''Robert C. Martin'',
      BookBase.price = Some (Finite 29.99), BookBase.available = Some True, id_field = 1\<rparr>"

definition example_input :: BookCreate where
  "example_input =
     \<lparr>BookBase.title = Some ''Clean Code'', BookBase.author = Some ''Robert C. Martin'',
      BookBase.price = Some (Finite 29.99), BookBase.available = Some True\<rparr>"

text \<open>The patch \<^verbatim>\<open>{"title": null}\<close>, and the patch \<^verbatim>\<open>{"price": 19.99}\<close>.\<close>

definition null_title :: BookUpdate where
  "null_title =
     \<lparr>BookUpdate.title = Given None, author = Unset, price = Unset, available = Unset\<rparr>"

definition new_price :: BookUpdate where
  "new_price =
     \<lparr>BookUpdate.title = Unset, author = Unset, price = Given (Some (Finite 19.99)),
      available = Unset\<rparr>"

declare run.simps [simp del] step.simps [simp del]

section \<open>Facts about dictionaries\<close>

lemma dict_items_distinct: "distinct (map fst (dict_items d))"
  by (simp add: dict_items_def)

lemma dict_items_empty: "dict_items dict_empty = []"
  by (simp add: dict_items_def dict_empty_def empty.rep_eq)

lemma dict_items_setitem: "dict_items (dict_setitem d k v) = AList.update k v (dict_items d)"
  by (simp add: dict_items_def dict_setitem_def update.rep_eq)

lemma dict_items_delete: "dict_items (DAList.delete k d) = AList.delete k (dict_items d)"
  by (simp add: dict_items_def delete.rep_eq)

lemma dict_contains_iff: "dict_contains d k \<longleftrightarrow> dict_get d k \<noteq> None"
  by (simp add: dict_contains_def dict_get_def map_of_eq_None_iff)

lemma dict_get_empty: "dict_get dict_empty k = None"
  by (simp add: dict_get_def dict_items_empty)

lemma dict_get_setitem:
  "dict_get (dict_setitem d k v) k' = (if k' = k then Some v else dict_get d k')"
  by (simp add: dict_get_def dict_items_setitem update_conv')

lemma dict_delitem_present: "dict_contains d k \<Longrightarrow> dict_delitem d k = Inr (DAList.delete k d)"
  by (simp add: dict_delitem_def)

lemma dict_get_delete: "dict_get (DAList.delete k d) k' = (if k' = k then None else dict_get d k')"
  by (simp add: dict_get_def dict_items_delete delete_conv')

lemma alist_update_fresh: "k \<notin> fst ` set xs \<Longrightarrow> AList.update k v xs = xs @ [(k, v)]"
  by (induction xs) auto

lemma map_replace_absent:
  "k \<notin> fst ` set xs \<Longrightarrow> map (\<lambda>p. if fst p = k then (k, v) else p) xs = xs"
  by (induction xs) auto

lemma alist_update_present:
  "distinct (map fst xs) \<Longrightarrow> k \<in> fst ` set xs \<Longrightarrow>
   AList.update k v xs = map (\<lambda>p. if fst p = k then (k, v) else p) xs"
proof (induction xs)
  case Nil
  then show ?case by simp
next
  case (Cons p ps)
  show ?case
  proof (cases "fst p = k")
    case True
    with Cons.prems have "k \<notin> fst ` set ps" by auto
    with True show ?thesis by (simp add: map_replace_absent)
  next
    case False
    with Cons show ?thesis by auto
  qed
qed

lemma alist_delete_length:
  "distinct (map fst xs) \<Longrightarrow> k \<in> fst ` set xs \<Longrightarrow> Suc (length (AList.delete k xs)) = length xs"
proof (induction xs)
  case Nil
  then show ?case by simp
next
  case (Cons p ps)
  show ?case
  proof (cases "fst p = k")
    case True
    with Cons.prems have "k \<notin> fst ` set ps" by auto
    then have "AList.delete k ps = ps"
      by (induction ps) auto
    with True show ?thesis by simp
  next
    case False
    with Cons show ?thesis by auto
  qed
qed

lemma alist_delete_absent: "k \<notin> fst ` set xs \<Longrightarrow> AList.delete k xs = xs"
  by (induction xs) auto

lemma dict_len_delete:
  "dict_contains d k \<Longrightarrow> Suc (dict_len (DAList.delete k d)) = dict_len d"
  unfolding dict_len_def dict_items_delete dict_contains_def
  by (rule alist_delete_length) (simp_all add: dict_items_distinct)

section \<open>Facts about the store operations\<close>

lemma create_valid:
  "BookBase_valid book_data \<Longrightarrow>
   create db book_data =
     (Inr \<lparr>BookBase.title = BookBase.title book_data,
           BookBase.author = BookBase.author book_data,
           BookBase.price = BookBase.price book_data,
           BookBase.available = BookBase.available book_data,
           id_field = next_id db\<rparr>,
      db\<lparr>next_id := next_id db + 1,
         books := dict_setitem (books db) (next_id db)
           \<lparr>BookBase.title = BookBase.title book_data,
            BookBase.author = BookBase.author book_data,
            BookBase.price = BookBase.price book_data,
            BookBase.available = BookBase.available book_data,
            id_field = next_id db\<rparr>\<rparr>)"
  by (simp add: create_def generate_id_def Book_init_def)

lemma create_invalid:
  "\<not> BookBase_valid book_data \<Longrightarrow>
   create db book_data = (Inl ValidationError, db\<lparr>next_id := next_id db + 1\<rparr>)"
  by (simp add: create_def generate_id_def Book_init_def)

lemma delete_present:
  "dict_contains (books db) book_id \<Longrightarrow>
   delete db book_id = (Inr True, db\<lparr>books := DAList.delete book_id (books db)\<rparr>)"
  by (simp add: delete_def dict_delitem_present)

lemma delete_absent: "\<not> dict_contains (books db) book_id \<Longrightarrow> delete db book_id = (Inr False, db)"
  by (simp add: delete_def)

lemma update_absent:
  "dict_get (books db) book_id = None \<Longrightarrow> update db book_id book_data = (Inr None, db)"
  by (simp add: update_def Let_def)

lemma update_present:
  "dict_get (books db) book_id = Some book \<Longrightarrow>
   update db book_id book_data =
     (Inr (Some (model_copy book book_data)),
      db\<lparr>books := dict_setitem (books db) book_id (model_copy book book_data)\<rparr>)"
  by (simp add: update_def Let_def)

section \<open>Facts about sequences of operations\<close>

lemma run_Nil: "run db [] = ([], db)"
  by (simp add: run.simps)

lemma run_Cons_fst: "fst (run db (x # xs)) = fst (step db x) # fst (run (snd (step db x)) xs)"
  by (simp add: run.simps case_prod_unfold)

lemma run_Cons_snd: "snd (run db (x # xs)) = snd (run (snd (step db x)) xs)"
  by (simp add: run.simps case_prod_unfold)

lemma reachable_run: "reachable db \<Longrightarrow> reachable (snd (run db ops))"
proof (induction ops arbitrary: db)
  case Nil
  then show ?case by (simp add: run_Nil)
next
  case (Cons x xs)
  from Cons.prems have "reachable (snd (step db x))"
    by (rule reachable_step)
  then have "reachable (snd (run (snd (step db x)) xs))"
    by (rule Cons.IH)
  then show ?case
    by (simp only: run_Cons_snd)
qed

lemma create_result_id: "create db book_data = (Inr r, db') \<Longrightarrow> id_field r = next_id db"
  by (cases "BookBase_valid book_data") (auto simp: create_valid create_invalid)

lemma create_next_id: "next_id (snd (create db book_data)) = next_id db + 1"
  by (cases "BookBase_valid book_data") (simp_all add: create_valid create_invalid)

lemma update_next_id: "next_id (snd (update db book_id book_data)) = next_id db"
  by (simp add: update_def Let_def split: option.split)

lemma delete_next_id: "next_id (snd (delete db book_id)) = next_id db"
  by (simp add: delete_def dict_delitem_def)

lemma step_next_id:
  "next_id (snd (step db x)) = (case x of Create d \<Rightarrow> next_id db + 1 | _ \<Rightarrow> next_id db)"
  using create_next_id [of db] update_next_id [of db] delete_next_id [of db]
  by (cases x) (simp_all add: step.simps case_prod_unfold)

lemma step_next_id_create: "next_id (snd (step db (Create d))) = next_id db + 1"
  by (simp add: step_next_id)

lemma step_next_id_le: "next_id db \<le> next_id (snd (step db x))"
  by (simp add: step_next_id split: op.split)

lemma step_create_results:
  "create_results (fst (step db x) # rs) =
     (case x of Create d \<Rightarrow> fst (create db d) # create_results rs | _ \<Rightarrow> create_results rs)"
  by (cases x) (simp_all add: step.simps case_prod_unfold)

lemma create_results_nth:
  "j < length (create_results (fst (run db ops))) \<Longrightarrow>
   create_results (fst (run db ops)) ! j = Inr b \<Longrightarrow> id_field b = next_id db + int j"
proof (induction ops arbitrary: db j)
  case Nil
  then show ?case by (simp add: run_Nil)
next
  case (Cons x xs)
  let ?db1 = "snd (step db x)"
  let ?rest = "create_results (fst (run ?db1 xs))"
  show ?case
  proof (cases "\<exists>d. x = Create d")
    case True
    then obtain d where x: "x = Create d" by blast
    have rs: "create_results (fst (run db (x # xs))) = fst (create db d) # ?rest"
      by (simp add: run_Cons_fst step_create_results x)
    have n1: "next_id ?db1 = next_id db + 1"
      unfolding x by (rule step_next_id_create)
    show ?thesis
    proof (cases j)
      case 0
      with Cons.prems rs have "fst (create db d) = Inr b" by simp
      then have "create db d = (Inr b, snd (create db d))"
        by (metis prod.collapse)
      then have "id_field b = next_id db"
        by (rule create_result_id)
      with 0 show ?thesis by simp
    next
      case (Suc j')
      with Cons.prems rs have "j' < length ?rest" and "?rest ! j' = Inr b"
        by simp_all
      then have "id_field b = next_id ?db1 + int j'"
        by (rule Cons.IH)
      with n1 Suc show ?thesis by simp
    qed
  next
    case False
    then have rs: "create_results (fst (run db (x # xs))) = ?rest"
      by (cases x) (simp_all add: run_Cons_fst step_create_results)
    from False have n1: "next_id ?db1 = next_id db"
      by (cases x) (simp_all add: step_next_id)
    from Cons.prems rs have "j < length ?rest" and "?rest ! j = Inr b"
      by simp_all
    then have "id_field b = next_id ?db1 + int j"
      by (rule Cons.IH)
    with n1 show ?thesis by simp
  qed
qed

lemma step_created_ids:
  "created_ids (fst (step db x) # rs) =
     (case x of
        Create d \<Rightarrow> if BookBase_valid d then next_id db # created_ids rs else created_ids rs
      | _ \<Rightarrow> created_ids rs)"
  by (cases x) (simp_all add: step.simps created_ids_def case_prod_unfold create_valid create_invalid)

lemma created_ids_lower: "i \<in> set (created_ids (fst (run db ops))) \<Longrightarrow> next_id db \<le> i"
proof (induction ops arbitrary: db i)
  case Nil
  then show ?case by (simp add: run_Nil created_ids_def)
next
  case (Cons x xs)
  let ?db1 = "snd (step db x)"
  have later: "next_id db \<le> k" if "k \<in> set (created_ids (fst (run ?db1 xs)))" for k
  proof -
    from that have "next_id ?db1 \<le> k" by (rule Cons.IH)
    moreover have "next_id db \<le> next_id ?db1"
      by (rule step_next_id_le)
    ultimately show ?thesis by simp
  qed
  from Cons.prems
  have "i = next_id db \<or> i \<in> set (created_ids (fst (run ?db1 xs)))"
    by (cases x) (simp_all add: run_Cons_fst step_created_ids split: if_splits)
  with later show ?case by auto
qed

lemma created_ids_sorted: "sorted_wrt (<) (created_ids (fst (run db ops)))"
proof (induction ops arbitrary: db)
  case Nil
  show ?case by (simp add: run_Nil created_ids_def)
next
  case (Cons x xs)
  let ?db1 = "snd (step db x)"
  have rest: "sorted_wrt (<) (created_ids (fst (run ?db1 xs)))"
    by (rule Cons.IH)
  show ?case
  proof (cases "\<exists>d. x = Create d \<and> BookBase_valid d")
    case True
    then obtain d where x: "x = Create d" and v: "BookBase_valid d" by blast
    have "next_id db < k" if "k \<in> set (created_ids (fst (run ?db1 xs)))" for k
    proof -
      from that have "next_id ?db1 \<le> k" by (rule created_ids_lower)
      moreover have "next_id ?db1 = next_id db + 1"
        unfolding x by (rule step_next_id_create)
      ultimately show ?thesis by simp
    qed
    with rest show ?thesis
      by (simp add: run_Cons_fst step_created_ids x v)
  next
    case False
    with rest show ?thesis
      by (cases x) (simp_all add: run_Cons_fst step_created_ids)
  qed
qed


subsection \<open>The invariant of the reachable states\<close>

lemma alist_update_subset: "set (AList.update k v xs) \<subseteq> insert (k, v) (set xs)"
  by (induction xs) auto

lemma alist_delete_subset: "set (AList.delete k xs) \<subseteq> set xs"
  by (induction xs) auto

lemma sorted_keys_delete:
  "sorted_wrt (<) (map fst xs) \<Longrightarrow> sorted_wrt (<) (map fst (AList.delete (k :: int) xs))"
  by (induction xs) (auto dest: subsetD [OF alist_delete_subset])

lemma store_inv_init: "store_inv init"
  by (simp add: store_inv_def init_def dict_items_empty)

lemma store_inv_keys_below:
  "store_inv db \<Longrightarrow> dict_contains (books db) k \<Longrightarrow> k < next_id db"
  by (auto simp: store_inv_def dict_contains_def)

lemma store_inv_fresh: "store_inv db \<Longrightarrow> \<not> dict_contains (books db) (next_id db)"
  using store_inv_keys_below [of db "next_id db"] by auto

lemma store_inv_create: "store_inv db \<Longrightarrow> store_inv (snd (create db book_data))"
proof (cases "BookBase_valid book_data")
  case False
  assume "store_inv db"
  with False show ?thesis
    by (fastforce simp: create_invalid store_inv_def)
next
  case True
  assume inv: "store_inv db"
  let ?b = "\<lparr>BookBase.title = BookBase.title book_data,
            BookBase.author = BookBase.author book_data,
            BookBase.price = BookBase.price book_data,
            BookBase.available = BookBase.available book_data,
            id_field = next_id db\<rparr>"
  have fresh: "next_id db \<notin> fst ` set (dict_items (books db))"
    using store_inv_fresh [OF inv] by (simp add: dict_contains_def)
  then have items:
    "dict_items (dict_setitem (books db) (next_id db) ?b) =
     dict_items (books db) @ [(next_id db, ?b)]"
    by (simp add: dict_items_setitem alist_update_fresh)
  have below: "\<forall>p \<in> set (dict_items (books db)). fst p < next_id db"
    using inv by (auto simp: store_inv_def)
  have "\<forall>(k, b) \<in> set (dict_items (books db) @ [(next_id db, ?b)]).
          id_field b = k \<and> k < next_id db + 1"
    using inv by (fastforce simp: store_inv_def)
  moreover have "sorted_wrt (<) (map fst (dict_items (books db) @ [(next_id db, ?b)]))"
    using inv below by (simp add: store_inv_def sorted_wrt_append)
  ultimately show ?thesis
    by (simp add: create_valid [OF True] store_inv_def items)
qed

lemma store_inv_get: "store_inv db \<Longrightarrow> dict_get (books db) k = Some b \<Longrightarrow> id_field b = k"
  by (auto simp: store_inv_def dict_get_def dest: map_of_SomeD)

lemma store_inv_update: "store_inv db \<Longrightarrow> store_inv (snd (update db book_id book_data))"
proof (cases "dict_get (books db) book_id")
  case None
  assume "store_inv db"
  with None show ?thesis by (simp add: update_absent)
next
  case (Some book)
  assume inv: "store_inv db"
  let ?b = "model_copy book book_data"
  have idb: "id_field ?b = book_id"
    using store_inv_get [OF inv Some] by (simp add: model_copy_def)
  have present: "book_id \<in> fst ` set (dict_items (books db))"
    using Some dict_contains_iff [of "books db" book_id] by (simp add: dict_contains_def)
  have below: "book_id < next_id db"
    using inv present by (auto simp: store_inv_def)
  have keys: "map fst (AList.update book_id ?b (dict_items (books db))) =
              map fst (dict_items (books db))"
    using present by (simp add: update_keys)
  have "\<forall>(k, b) \<in> set (AList.update book_id ?b (dict_items (books db))).
          id_field b = k \<and> k < next_id db"
    using inv idb below alist_update_subset [of book_id ?b "dict_items (books db)"]
    by (fastforce simp: store_inv_def)
  moreover have "sorted_wrt (<) (map fst (AList.update book_id ?b (dict_items (books db))))"
    using inv by (simp add: keys store_inv_def)
  ultimately show ?thesis
    by (simp add: update_present [OF Some] store_inv_def dict_items_setitem)
qed

lemma store_inv_delete: "store_inv db \<Longrightarrow> store_inv (snd (delete db book_id))"
proof (cases "dict_contains (books db) book_id")
  case False
  assume "store_inv db"
  with False show ?thesis by (simp add: delete_absent)
next
  case True
  assume inv: "store_inv db"
  have "\<forall>(k, b) \<in> set (AList.delete book_id (dict_items (books db))).
          id_field b = k \<and> k < next_id db"
    using inv alist_delete_subset [of book_id "dict_items (books db)"]
    by (fastforce simp: store_inv_def)
  moreover have "sorted_wrt (<) (map fst (AList.delete book_id (dict_items (books db))))"
    using inv by (simp add: store_inv_def sorted_keys_delete)
  ultimately show ?thesis
    by (simp add: delete_present [OF True] store_inv_def dict_items_delete)
qed

lemma store_inv_step: "store_inv db \<Longrightarrow> store_inv (snd (step db x))"
  by (cases x)
    (simp_all add: step.simps case_prod_unfold store_inv_create store_inv_update store_inv_delete)

lemma reachable_store_inv: "reachable db \<Longrightarrow> store_inv db"
  by (induction rule: reachable.induct) (simp_all add: store_inv_init store_inv_step)


subsection \<open>What \<open>get_all\<close> lists\<close>

lemma get_all_init: "get_all init = []"
  by (simp add: get_all_def dict_values_def init_def dict_items_empty)

lemma get_all_members: "b \<in> set (get_all db) \<longleftrightarrow> (\<exists>k. get_by_id db k = Some b)"
proof -
  have "distinct (map fst (dict_items (books db)))"
    by (rule dict_items_distinct)
  then have "map_of (dict_items (books db)) k = Some b \<longleftrightarrow> (k, b) \<in> set (dict_items (books db))"
    for k by simp
  then show ?thesis
    by (force simp: get_all_def dict_values_def get_by_id_def dict_get_def)
qed

lemma store_inv_ids: "store_inv db \<Longrightarrow> map id_field (get_all db) = map fst (dict_items (books db))"
  by (auto simp: store_inv_def get_all_def dict_values_def)

lemma values_replace:
  "\<forall>(k, b) \<in> set xs. id_field b = k \<Longrightarrow>
   map snd (map (\<lambda>p. if fst p = k then (k, v) else p) xs) =
   map (\<lambda>b. if id_field b = k then v else b) (map snd xs)"
  by (induction xs) auto

lemma values_delete:
  "\<forall>(k, b) \<in> set xs. id_field b = k \<Longrightarrow>
   map snd (AList.delete k xs) = filter (\<lambda>b. id_field b \<noteq> k) (map snd xs)"
  by (induction xs) auto

lemma get_all_create:
  assumes "store_inv db"
  shows "get_all (snd (create db book_data)) =
         (case fst (create db book_data) of Inr r \<Rightarrow> get_all db @ [r] | Inl e \<Rightarrow> get_all db)"
proof (cases "BookBase_valid book_data")
  case False
  then show ?thesis
    by (simp add: create_invalid get_all_def)
next
  case True
  have "next_id db \<notin> fst ` set (dict_items (books db))"
    using store_inv_fresh [OF assms] by (simp add: dict_contains_def)
  then have "AList.update (next_id db) r (dict_items (books db)) =
             dict_items (books db) @ [(next_id db, r)]" for r
    by (rule alist_update_fresh)
  then show ?thesis
    by (simp add: create_valid [OF True] get_all_def dict_values_def dict_items_setitem)
qed

lemma get_all_update:
  assumes "store_inv db"
  shows "get_all (snd (update db book_id book_data)) =
         (case fst (update db book_id book_data) of
            Inr (Some b') \<Rightarrow> map (\<lambda>b. if id_field b = book_id then b' else b) (get_all db)
          | _ \<Rightarrow> get_all db)"
proof (cases "dict_get (books db) book_id")
  case None
  then show ?thesis
    by (simp add: update_absent)
next
  case (Some book)
  let ?b = "model_copy book book_data"
  have present: "book_id \<in> fst ` set (dict_items (books db))"
    using Some dict_contains_iff [of "books db" book_id] by (simp add: dict_contains_def)
  have ids: "\<forall>(k, b) \<in> set (dict_items (books db)). id_field b = k"
    using assms by (auto simp: store_inv_def)
  have "AList.update book_id ?b (dict_items (books db)) =
        map (\<lambda>p. if fst p = book_id then (book_id, ?b) else p) (dict_items (books db))"
    using dict_items_distinct present by (rule alist_update_present)
  then have "map snd (AList.update book_id ?b (dict_items (books db))) =
        map (\<lambda>b. if id_field b = book_id then ?b else b) (map snd (dict_items (books db)))"
    using values_replace [OF ids] by simp
  then show ?thesis
    by (simp add: update_present [OF Some] get_all_def dict_values_def dict_items_setitem)
qed

lemma get_all_delete:
  assumes "store_inv db"
  shows "get_all (snd (delete db book_id)) =
         filter (\<lambda>b. id_field b \<noteq> book_id) (get_all db)"
proof -
  have ids: "\<forall>(k, b) \<in> set (dict_items (books db)). id_field b = k"
    using assms by (auto simp: store_inv_def)
  note filtered = values_delete [OF ids, of book_id]
  show ?thesis
  proof (cases "dict_contains (books db) book_id")
    case True
    then show ?thesis
      by (simp add: delete_present get_all_def dict_values_def dict_items_delete filtered)
  next
    case False
    then have "AList.delete book_id (dict_items (books db)) = dict_items (books db)"
      by (intro alist_delete_absent) (simp add: dict_contains_def)
    with filtered False show ?thesis
      by (simp add: delete_absent get_all_def dict_values_def)
  qed
qed

section \<open>The field constraints, and the example values\<close>

lemma example_input_valid: "BookBase_valid example_input"
  by (simp add: BookBase_valid_def example_input_def required_def str_ok_def)

lemma create_example_input:
  "create \<lparr>books = d, next_id = n\<rparr> example_input =
     (Inr (example_book\<lparr>id_field := n\<rparr>),
      \<lparr>books = dict_setitem d n (example_book\<lparr>id_field := n\<rparr>), next_id = n + 1\<rparr>)"
  by (simp add: create_def generate_id_def Book_init_def BookBase_valid_def required_def
      str_ok_def example_input_def example_book_def)

lemma create_example:
  "create init example_input =
     (Inr example_book, \<lparr>books = dict_setitem dict_empty 1 example_book, next_id = 2\<rparr>)"
  by (simp add: init_def create_example_input) (simp add: example_book_def)

lemma model_copy_valid:
  "BookBase_valid book \<Longrightarrow> BookUpdate_valid u \<Longrightarrow> no_explicit_null u \<Longrightarrow>
   BookBase_valid (model_copy book u)"
  by (auto simp: BookBase_valid_def BookUpdate_valid_def no_explicit_null_def model_copy_def
      pick_def required_def optional_def split: field.splits option.splits)

lemma store_valid_init: "store_valid init"
  by (simp add: store_valid_def get_by_id_def init_def dict_get_empty)

lemma store_valid_create: "store_valid db \<Longrightarrow> store_valid (snd (create db book_data))"
  by (cases "BookBase_valid book_data")
    (auto simp: create_valid create_invalid store_valid_def get_by_id_def dict_get_setitem
      BookBase_valid_def split: if_splits)

lemma store_valid_update:
  "store_valid db \<Longrightarrow> BookUpdate_valid u \<Longrightarrow> no_explicit_null u \<Longrightarrow>
   store_valid (snd (update db book_id u))"
proof (cases "dict_get (books db) book_id")
  case None
  assume "store_valid db"
  with None show ?thesis by (simp add: update_absent)
next
  case (Some book)
  assume valid: "store_valid db" and u: "BookUpdate_valid u" "no_explicit_null u"
  from valid Some have "BookBase_valid book"
    by (simp add: store_valid_def get_by_id_def)
  then have "BookBase_valid (model_copy book u)"
    using u by (rule model_copy_valid)
  with valid show ?thesis
    by (auto simp: update_present [OF Some] store_valid_def get_by_id_def dict_get_setitem
        split: if_splits)
qed

lemma store_valid_delete: "store_valid db \<Longrightarrow> store_valid (snd (delete db book_id))"
  by (cases "dict_contains (books db) book_id")
    (auto simp: delete_present delete_absent store_valid_def get_by_id_def dict_get_delete
      split: if_splits)

lemma update_example_null:
  "update \<lparr>books = dict_setitem dict_empty 1 example_book, next_id = 2\<rparr> 1 null_title =
     (Inr (Some (example_book\<lparr>BookBase.title := None\<rparr>)),
      \<lparr>books = dict_setitem (dict_setitem dict_empty 1 example_book) 1
         (example_book\<lparr>BookBase.title := None\<rparr>), next_id = 2\<rparr>)"
  by (simp add: update_def Let_def dict_get_setitem model_copy_def pick_def null_title_def)

lemma valid_operations_keep_store_valid:
  "store_valid db \<Longrightarrow> null_free x \<Longrightarrow> store_valid (snd (step db x))"
  by (cases x)
    (simp_all add: null_free_def step.simps case_prod_unfold store_valid_create
      store_valid_update store_valid_delete)

lemma null_free_runs_keep_store_valid:
  "store_valid db \<Longrightarrow> list_all null_free ops \<Longrightarrow> store_valid (snd (run db ops))"
proof (induction ops arbitrary: db)
  case Nil
  then show ?case by (simp add: run_Nil)
next
  case (Cons x xs)
  from Cons.prems have "store_valid (snd (step db x))"
    by (simp add: valid_operations_keep_store_valid)
  moreover from Cons.prems have "list_all null_free xs"
    by simp
  ultimately have "store_valid (snd (run (snd (step db x)) xs))"
    by (rule Cons.IH)
  then show ?case
    by (simp only: run_Cons_snd)
qed

section \<open>The claims\<close>

text \<open>
  Claim C1. In every sequence of store operations on a new store, the call of
  \<^verbatim>\<open>create\<close> number \<open>j\<close> (counted from 0) that returns a record returns it with the
  identifier \<open>j + 1\<close>; the identifiers returned are strictly increasing, so no two
  records returned share one; and once \<^verbatim>\<open>delete\<close> of an identifier has succeeded, no
  later \<^verbatim>\<open>create\<close> returns that identifier, whatever operations follow.
\<close>

theorem created_ids_unique_and_increasing:
  "(\<forall>j b. j < length (create_results (fst (run init ops))) \<longrightarrow>
          create_results (fst (run init ops)) ! j = Inr b \<longrightarrow> id_field b = int j + 1) \<and>
   sorted_wrt (<) (created_ids (fst (run init ops))) \<and>
   distinct (created_ids (fst (run init ops))) \<and>
   (fst (delete (snd (run init ops)) book_id) = Inr True \<longrightarrow>
      book_id \<notin> set (created_ids (fst (run (snd (delete (snd (run init ops)) book_id)) ops'))))"
proof -
  let ?db = "snd (run init ops)"
  let ?db' = "snd (delete ?db book_id)"
  have first: "next_id init = 1"
    by (simp add: init_def)
  have nth: "id_field b = int j + 1"
    if "j < length (create_results (fst (run init ops)))"
      and "create_results (fst (run init ops)) ! j = Inr b" for j b
    using create_results_nth [OF that] first by simp
  have sorted: "sorted_wrt (<) (created_ids (fst (run init ops)))"
    by (rule created_ids_sorted)
  then have dist: "distinct (created_ids (fst (run init ops)))"
    by (simp add: strict_sorted_iff)
  have retired: "book_id \<notin> set (created_ids (fst (run ?db' ops')))"
    if del: "fst (delete ?db book_id) = Inr True"
  proof
    assume "book_id \<in> set (created_ids (fst (run ?db' ops')))"
    then have "next_id ?db' \<le> book_id"
      by (rule created_ids_lower)
    then have low: "next_id ?db \<le> book_id"
      by (simp add: delete_next_id)
    have "store_inv ?db"
      by (intro reachable_store_inv reachable_run reachable_init)
    moreover have "dict_contains (books ?db) book_id"
      using del by (cases "dict_contains (books ?db) book_id") (simp_all add: delete_absent)
    ultimately have "book_id < next_id ?db"
      by (rule store_inv_keys_below)
    with low show False by simp
  qed
  from nth sorted dist retired show ?thesis
    by blast
qed

theorem created_ids_unique_and_increasing_witness:
  "0 < length (create_results (fst (run init [Create example_input, Create example_input]))) \<and>
   create_results (fst (run init [Create example_input, Create example_input])) ! 0 =
     Inr example_book \<and>
   id_field example_book = int 0 + 1 \<and>
   created_ids (fst (run init [Create example_input, Create example_input])) = [1, 2] \<and>
   fst (delete (snd (run init [Create example_input, Create example_input])) 1) = Inr True \<and>
   1 \<notin> set (created_ids (fst (run
           (snd (delete (snd (run init [Create example_input, Create example_input])) 1))
           [Create example_input])))"
proof -
  let ?ops = "[Create example_input, Create example_input]"
  have run2: "run init ?ops =
      ([Created (Inr example_book), Created (Inr (example_book\<lparr>id_field := 2\<rparr>))],
       \<lparr>books = dict_setitem (dict_setitem dict_empty 1 example_book) 2
          (example_book\<lparr>id_field := 2\<rparr>), next_id = 3\<rparr>)"
    by (simp add: run.simps step.simps create_example create_example_input)
  have len: "0 < length (create_results (fst (run init ?ops)))"
    and nth: "create_results (fst (run init ?ops)) ! 0 = Inr example_book"
    and ids: "created_ids (fst (run init ?ops)) = [1, 2]"
    by (simp_all add: run2 created_ids_def example_book_def)
  have del: "fst (delete (snd (run init ?ops)) 1) = Inr True"
    by (simp add: run2 delete_present dict_contains_iff dict_get_setitem)
  note fact = created_ids_unique_and_increasing [of ?ops 1 "[Create example_input]"]
  from fact len nth have first: "id_field example_book = int 0 + 1"
    by blast
  from fact del
  have "1 \<notin> set (created_ids (fst (run (snd (delete (snd (run init ?ops)) 1))
          [Create example_input])))"
    by blast
  with len nth first ids del show ?thesis
    by (intro conjI)
qed

text \<open>
  Claim C2. For every state of the store that holds a record under the identifier and
  for every patch, \<^verbatim>\<open>update\<close> returns and stores a record in which each field that the
  patch leaves unset has its prior value and each field that the patch gives has the
  value given, an explicit \<^verbatim>\<open>null\<close> included; the identifier is the prior one, and the
  other records and the counter are as before.
\<close>

theorem update_replaces_given_fields:
  "get_by_id db book_id = Some book \<Longrightarrow>
   \<exists>b' db'. update db book_id book_data = (Inr (Some b'), db') \<and>
     get_by_id db' = (get_by_id db)(book_id \<mapsto> b') \<and>
     next_id db' = next_id db \<and>
     BookBase.title b' =
       (case BookUpdate.title book_data of Unset \<Rightarrow> BookBase.title book | Given v \<Rightarrow> v) \<and>
     BookBase.author b' =
       (case BookUpdate.author book_data of Unset \<Rightarrow> BookBase.author book | Given v \<Rightarrow> v) \<and>
     BookBase.price b' =
       (case BookUpdate.price book_data of Unset \<Rightarrow> BookBase.price book | Given v \<Rightarrow> v) \<and>
     BookBase.available b' =
       (case BookUpdate.available book_data of
          Unset \<Rightarrow> BookBase.available book | Given v \<Rightarrow> v) \<and>
     id_field b' = id_field book"
proof -
  assume "get_by_id db book_id = Some book"
  then have live: "dict_get (books db) book_id = Some book"
    by (simp add: get_by_id_def)
  let ?b = "model_copy book book_data"
  let ?db = "db\<lparr>books := dict_setitem (books db) book_id ?b\<rparr>"
  have "update db book_id book_data = (Inr (Some ?b), ?db)"
    using live by (rule update_present)
  moreover have "get_by_id ?db = (get_by_id db)(book_id \<mapsto> ?b)"
    by (rule ext) (simp add: get_by_id_def dict_get_setitem)
  moreover have "next_id ?db = next_id db"
    by simp
  ultimately show ?thesis
    by (simp add: model_copy_def pick_def)
qed

theorem update_replaces_given_fields_witness:
  "get_by_id (snd (create init example_input)) 1 = Some example_book \<and>
   (\<exists>b' db'. update (snd (create init example_input)) 1 new_price = (Inr (Some b'), db') \<and>
      get_by_id db' 1 = Some b' \<and>
      BookBase.title b' = Some ''Clean Code'' \<and>
      BookBase.author b' = Some ''Robert C. Martin'' \<and>
      BookBase.price b' = Some (Finite 19.99) \<and>
      BookBase.available b' = Some True \<and>
      id_field b' = 1)"
proof -
  have live: "get_by_id (snd (create init example_input)) 1 = Some example_book"
    by (simp add: create_example get_by_id_def dict_get_setitem)
  from update_replaces_given_fields [OF live, of new_price]
  obtain b' db' where "update (snd (create init example_input)) 1 new_price = (Inr (Some b'), db')"
    and "get_by_id db' = (get_by_id (snd (create init example_input)))(1 \<mapsto> b')"
    and "BookBase.title b' = BookBase.title example_book"
    and "BookBase.author b' = BookBase.author example_book"
    and "BookBase.price b' = Some (Finite 19.99)"
    and "BookBase.available b' = BookBase.available example_book"
    and "id_field b' = id_field example_book"
    by (auto simp: new_price_def)
  then have "update (snd (create init example_input)) 1 new_price = (Inr (Some b'), db') \<and>
      get_by_id db' 1 = Some b' \<and>
      BookBase.title b' = Some ''Clean Code'' \<and>
      BookBase.author b' = Some ''Robert C. Martin'' \<and>
      BookBase.price b' = Some (Finite 19.99) \<and>
      BookBase.available b' = Some True \<and>
      id_field b' = 1"
    by (simp add: example_book_def)
  with live show ?thesis
    by blast
qed

text \<open>
  Claim C3. The claim is that every record of every reachable store meets the field
  constraints when the inputs of the operations pass the validation of their models.
  The theorem evaluates the store on two such inputs: the example book is created, and
  the patch \<^verbatim>\<open>{"title": null}\<close>, which \<^verbatim>\<open>BookUpdate\<close> accepts, is applied to it. The
  store then holds record 1 with the title \<^verbatim>\<open>None\<close>, which is not a non-empty string.
\<close>

theorem explicit_null_breaks_the_field_constraints:
  "BookBase_valid example_input \<and> BookUpdate_valid null_title \<and>
   get_by_id (snd (run init [Create example_input, Update 1 null_title])) 1 =
     Some (example_book\<lparr>BookBase.title := None\<rparr>) \<and>
   \<not> BookBase_valid (example_book\<lparr>BookBase.title := None\<rparr>)"
proof -
  have patch: "BookUpdate_valid null_title"
    by (simp add: BookUpdate_valid_def optional_def null_title_def)
  have "snd (run init [Create example_input, Update 1 null_title]) =
        \<lparr>books = dict_setitem (dict_setitem dict_empty 1 example_book) 1
           (example_book\<lparr>BookBase.title := None\<rparr>), next_id = 2\<rparr>"
    by (simp add: run.simps step.simps create_example update_example_null)
  then have stored:
    "get_by_id (snd (run init [Create example_input, Update 1 null_title])) 1 =
       Some (example_book\<lparr>BookBase.title := None\<rparr>)"
    by (simp add: get_by_id_def dict_get_setitem)
  have "\<not> BookBase_valid (example_book\<lparr>BookBase.title := None\<rparr>)"
    by (simp add: BookBase_valid_def required_def)
  with example_input_valid patch stored show ?thesis
    by simp
qed

text \<open>
  Claim C4. The claim is that the identifier of a created record is the next value of
  the store's counter and that a caller can never choose an identifier or make two
  records share one. \<^verbatim>\<open>BookDatabase.create\<close> does so (\<open>create_result_id\<close>). The theorem
  evaluates \<^verbatim>\<open>add_book\<close> of the root \<^verbatim>\<open>main.py\<close> on two books that both arrive with the
  identifier 1: both are stored, each under the identifier its caller sent, and
  \<^verbatim>\<open>get_book\<close> of 1 then finds the first of them only.
\<close>

theorem main_add_book_takes_the_id_of_the_caller:
  "map id_field
     (main_get_books (snd (main_add_book (snd (main_add_book [] example_book))
        (example_book\<lparr>BookBase.title := Some ''Dune''\<rparr>)))) = [1, 1] \<and>
   main_get_book
     (snd (main_add_book (snd (main_add_book [] example_book))
        (example_book\<lparr>BookBase.title := Some ''Dune''\<rparr>))) 1 = Inr example_book"
  by (simp add: main_add_book_def main_get_books_def example_book_def)

text \<open>
  Claim C5. For every valid input and every state of the store, \<^verbatim>\<open>create\<close> returns a
  record, and \<^verbatim>\<open>get_by_id\<close> of the identifier of that record, asked of the store that
  \<^verbatim>\<open>create\<close> leaves behind, returns the same record.
\<close>

theorem create_then_get_by_id:
  "BookBase_valid book_data \<Longrightarrow>
   \<exists>r db'. create db book_data = (Inr r, db') \<and> get_by_id db' (id_field r) = Some r"
  by (simp add: create_valid get_by_id_def dict_get_setitem)

theorem create_then_get_by_id_witness:
  "BookBase_valid example_input \<and>
   (\<exists>r db'. create init example_input = (Inr r, db') \<and> get_by_id db' (id_field r) = Some r)"
  using example_input_valid create_then_get_by_id [OF example_input_valid, of init]
  by (rule conjI)

text \<open>
  Claim C6. For every state of the store and every identifier under which it holds no
  record, \<^verbatim>\<open>get_by_id\<close> and \<^verbatim>\<open>update\<close> return \<^verbatim>\<open>None\<close> and \<^verbatim>\<open>delete\<close> returns \<^verbatim>\<open>False\<close>, none of
  them raises, and each leaves the store as it was: \<^verbatim>\<open>update\<close> creates no record, and
  \<^verbatim>\<open>count\<close> is unchanged.
\<close>

theorem not_found_is_a_normal_result:
  "\<not> exists db book_id \<Longrightarrow>
   step db (GetById book_id) = (Got None, db) \<and>
   step db (Update book_id book_data) = (Updated (Inr None), db) \<and>
   step db (Delete book_id) = (Deleted (Inr False), db) \<and>
   count (snd (step db (GetById book_id))) = count db \<and>
   count (snd (step db (Update book_id book_data))) = count db \<and>
   count (snd (step db (Delete book_id))) = count db"
  by (simp add: step.simps exists_def dict_contains_iff get_by_id_def update_absent delete_absent)

theorem not_found_is_a_normal_result_witness:
  "\<not> exists (snd (create init example_input)) 2 \<and>
   step (snd (create init example_input)) (GetById 2) =
     (Got None, snd (create init example_input)) \<and>
   step (snd (create init example_input)) (Update 2 new_price) =
     (Updated (Inr None), snd (create init example_input)) \<and>
   step (snd (create init example_input)) (Delete 2) =
     (Deleted (Inr False), snd (create init example_input)) \<and>
   count (snd (step (snd (create init example_input)) (GetById 2))) =
     count (snd (create init example_input)) \<and>
   count (snd (step (snd (create init example_input)) (Update 2 new_price))) =
     count (snd (create init example_input)) \<and>
   count (snd (step (snd (create init example_input)) (Delete 2))) =
     count (snd (create init example_input))"
proof -
  have absent: "\<not> exists (snd (create init example_input)) 2"
    by (simp add: create_example exists_def dict_contains_iff dict_get_setitem dict_get_empty)
  from absent not_found_is_a_normal_result [OF absent, of new_price] show ?thesis
    by (rule conjI)
qed

text \<open>
  Claim C7. For every state of the store that holds a record under the identifier,
  \<^verbatim>\<open>delete\<close> returns \<^verbatim>\<open>True\<close>; in the store it leaves, \<^verbatim>\<open>get_by_id\<close> of the identifier
  returns \<^verbatim>\<open>None\<close> and \<^verbatim>\<open>count\<close> is smaller by exactly one; and a second \<^verbatim>\<open>delete\<close> of the
  identifier returns \<^verbatim>\<open>False\<close> and leaves that store, and so its \<^verbatim>\<open>count\<close>, unchanged.
\<close>

theorem delete_removes_the_record:
  "get_by_id db book_id = Some book \<Longrightarrow>
   \<exists>db'. delete db book_id = (Inr True, db') \<and>
         get_by_id db' book_id = None \<and>
         Suc (count db') = count db \<and>
         delete db' book_id = (Inr False, db') \<and>
         count (snd (delete db' book_id)) = count db'"
proof -
  assume live: "get_by_id db book_id = Some book"
  then have present: "dict_contains (books db) book_id"
    by (simp add: dict_contains_iff get_by_id_def)
  let ?db' = "db\<lparr>books := DAList.delete book_id (books db)\<rparr>"
  have gone: "get_by_id ?db' book_id = None"
    by (simp add: get_by_id_def dict_get_delete)
  then have absent: "\<not> dict_contains (books ?db') book_id"
    by (simp add: dict_contains_iff get_by_id_def)
  have "delete db book_id = (Inr True, ?db')"
    using present by (rule delete_present)
  moreover have "Suc (count ?db') = count db"
    using present by (simp add: count_def dict_len_delete)
  moreover have "delete ?db' book_id = (Inr False, ?db')"
    using absent by (rule delete_absent)
  ultimately show ?thesis
    using gone by simp
qed

theorem delete_removes_the_record_witness:
  "get_by_id (snd (create init example_input)) 1 = Some example_book \<and>
   (\<exists>db'. delete (snd (create init example_input)) 1 = (Inr True, db') \<and>
         get_by_id db' 1 = None \<and>
         Suc (count db') = count (snd (create init example_input)) \<and>
         delete db' 1 = (Inr False, db') \<and>
         count (snd (delete db' 1)) = count db')"
proof -
  have live: "get_by_id (snd (create init example_input)) 1 = Some example_book"
    by (simp add: create_example get_by_id_def dict_get_setitem)
  from live delete_removes_the_record [OF live] show ?thesis
    by (rule conjI)
qed

text \<open>
  Claim C8. For every reachable state of the store, \<^verbatim>\<open>get_all\<close> returns exactly the
  records that \<^verbatim>\<open>get_by_id\<close> can return, in the order of their creation: a new store
  lists nothing, the list is empty exactly when \<^verbatim>\<open>count\<close> is 0 (and it is a list then,
  not \<^verbatim>\<open>None\<close>), \<^verbatim>\<open>create\<close> appends the record it returns, \<^verbatim>\<open>update\<close> replaces the record
  at the place where it stands, \<^verbatim>\<open>delete\<close> removes the record and keeps the order of the
  others, and the identifiers in the list are strictly increasing.
\<close>

theorem get_all_lists_live_records_in_creation_order:
  "reachable db \<Longrightarrow>
   get_all init = [] \<and>
   (get_all db = []) = (count db = 0) \<and>
   (\<forall>b. b \<in> set (get_all db) \<longleftrightarrow> (\<exists>k. get_by_id db k = Some b)) \<and>
   sorted_wrt (<) (map id_field (get_all db)) \<and>
   (\<forall>book_data. get_all (snd (create db book_data)) =
      (case fst (create db book_data) of
         Inr r \<Rightarrow> get_all db @ [r]
       | Inl e \<Rightarrow> get_all db)) \<and>
   (\<forall>book_id book_data. get_all (snd (update db book_id book_data)) =
      (case fst (update db book_id book_data) of
         Inr (Some b') \<Rightarrow> map (\<lambda>b. if id_field b = book_id then b' else b) (get_all db)
       | _ \<Rightarrow> get_all db)) \<and>
   (\<forall>book_id. get_all (snd (delete db book_id)) =
      filter (\<lambda>b. id_field b \<noteq> book_id) (get_all db))"
proof -
  assume "reachable db"
  then have inv: "store_inv db"
    by (rule reachable_store_inv)
  have empty: "(get_all db = []) = (count db = 0)"
    by (simp add: count_def dict_len_def get_all_def dict_values_def)
  have sorted: "sorted_wrt (<) (map id_field (get_all db))"
    using inv by (simp add: store_inv_ids) (simp add: store_inv_def)
  from get_all_init empty get_all_members sorted
    get_all_create [OF inv] get_all_update [OF inv] get_all_delete [OF inv]
  show ?thesis
    by (intro conjI allI)
qed

theorem get_all_lists_live_records_in_creation_order_witness:
  "reachable (snd (step init (Create example_input))) \<and>
   get_all (snd (step init (Create example_input))) = [example_book] \<and>
   sorted_wrt (<) (map id_field (get_all (snd (step init (Create example_input))))) \<and>
   get_all (snd (create (snd (step init (Create example_input))) example_input)) =
     [example_book, example_book\<lparr>id_field := 2\<rparr>] \<and>
   get_all (snd (update (snd (step init (Create example_input))) 1 null_title)) =
     [example_book\<lparr>BookBase.title := None\<rparr>] \<and>
   get_all (snd (delete (snd (step init (Create example_input))) 1)) = []"
proof -
  let ?db = "snd (step init (Create example_input))"
  have db: "?db = \<lparr>books = dict_setitem dict_empty 1 example_book, next_id = 2\<rparr>"
    by (simp add: step.simps create_example)
  have reach: "reachable ?db"
    by (intro reachable_step reachable_init)
  have listed: "get_all ?db = [example_book]"
    by (simp add: db get_all_def dict_values_def dict_items_setitem dict_items_empty)
  have created: "fst (create ?db example_input) = Inr (example_book\<lparr>id_field := 2\<rparr>)"
    by (simp add: db create_example_input)
  have updated:
    "fst (update ?db 1 null_title) = Inr (Some (example_book\<lparr>BookBase.title := None\<rparr>))"
    by (simp add: db update_example_null)
  note fact = get_all_lists_live_records_in_creation_order [OF reach]
  from fact have "sorted_wrt (<) (map id_field (get_all ?db))"
    by blast
  moreover from fact
  have "get_all (snd (create ?db example_input)) =
        (case fst (create ?db example_input) of
           Inr r \<Rightarrow> get_all ?db @ [r]
         | Inl e \<Rightarrow> get_all ?db)"
    by blast
  then have "get_all (snd (create ?db example_input)) =
             [example_book, example_book\<lparr>id_field := 2\<rparr>]"
    unfolding created listed by simp
  moreover from fact
  have "get_all (snd (update ?db 1 null_title)) =
        (case fst (update ?db 1 null_title) of
           Inr (Some b') \<Rightarrow> map (\<lambda>b. if id_field b = 1 then b' else b) (get_all ?db)
         | _ \<Rightarrow> get_all ?db)"
    by blast
  then have "get_all (snd (update ?db 1 null_title)) =
             [example_book\<lparr>BookBase.title := None\<rparr>]"
    unfolding updated listed by (simp add: example_book_def)
  moreover from fact
  have "get_all (snd (delete ?db 1)) = filter (\<lambda>b. id_field b \<noteq> 1) (get_all ?db)"
    by blast
  then have "get_all (snd (delete ?db 1)) = []"
    by (simp add: listed example_book_def)
  ultimately show ?thesis
    using reach listed by (intro conjI)
qed

text \<open>
  Claim C10. In every state of the store, \<^verbatim>\<open>exists\<close> is true of an identifier exactly
  when \<^verbatim>\<open>get_by_id\<close> returns a record for it, and \<^verbatim>\<open>count\<close> is the number of records
  that \<^verbatim>\<open>get_all\<close> returns.
\<close>

theorem auxiliary_queries_agree:
  "exists db book_id = (get_by_id db book_id \<noteq> None) \<and> count db = length (get_all db)"
  by (simp add: exists_def get_by_id_def dict_contains_iff count_def get_all_def
      dict_len_def dict_values_def)

end
